theory Spec2Isabelle
  imports Main "HOL-Library.Word"
begin

section \<open>The ring buffer of circular\_buffer.h\<close>

text \<open>
  The class template \<^verbatim>\<open>circular_buffer<T, N>\<close> keeps \<^verbatim>\<open>N ? N : 1\<close> slots of type
  \<^verbatim>\<open>T\<close> and three counters of type \<^verbatim>\<open>std::size_t\<close>, taken to be 64 bits wide. The
  counters are modelled as 64-bit words, so that \<^verbatim>\<open>++\<close>, \<^verbatim>\<open>--\<close> and \<^verbatim>\<open>+\<close> wrap around
  as they do in the program.
  The capacity \<^verbatim>\<open>N\<close> is a template argument: every operation of the model takes it
  as its first argument. Isabelle does not accept a name that starts or ends with an
  underscore, so the members \<^verbatim>\<open>buffer_\<close>, \<^verbatim>\<open>size_\<close>, \<^verbatim>\<open>tail_\<close> and
  \<^verbatim>\<open>_head\<close> are the fields \<open>m_buffer\<close>, \<open>m_size\<close>, \<open>m_tail\<close> and \<open>m_head\<close>,
  and the private helpers lose their outer underscores.
\<close>

type_synonym size_t = "64 word"

text \<open>
  What can go wrong in a call. \<open>OutOfRange\<close> is the exception \<^verbatim>\<open>std::out_of_range\<close>
  thrown by \<^verbatim>\<open>at\<close>. The other two are undefined behaviour in C++, written out so
  that no theorem can silently rely on it: \<open>OutsideStorage\<close> is the use of
  \<^verbatim>\<open>buffer_[p]\<close> with \<open>p\<close> beyond the array, \<open>ModuloByZero\<close> is \<^verbatim>\<open>% N\<close> with
  \<^verbatim>\<open>N == 0\<close>.
\<close>

datatype fault = OutOfRange | OutsideStorage | ModuloByZero

record 'a circular_buffer =
  m_buffer :: "'a list"
  m_size :: size_t
  m_tail :: size_t
  m_head :: size_t

text \<open>The length of the array \<^verbatim>\<open>T buffer_[N ? N : 1]\<close>.\<close>

definition storage_slots :: "size_t \<Rightarrow> nat" where
  "storage_slots N = (if N \<noteq> 0 then unat N else 1)"

text \<open>
  A freshly constructed buffer: the default member initialisers \<^verbatim>\<open>size_ = 0\<close>,
  \<^verbatim>\<open>tail_ = 0\<close>, \<^verbatim>\<open>_head = 1\<close>, over whatever the storage \<open>bs\<close> holds at that moment.
\<close>

definition constructed :: "'a list \<Rightarrow> 'a circular_buffer" where
  "constructed bs = \<lparr>m_buffer = bs, m_size = 0, m_tail = 0, m_head = 1\<rparr>"

subsection \<open>Slots and references\<close>

text \<open>
  A reference \<^verbatim>\<open>T&\<close> into the storage is the index of its slot. \<open>buffer_at\<close> is the
  expression \<^verbatim>\<open>buffer_[p]\<close>; \<open>deref\<close> reads through a reference and \<open>assign\<close>
  writes through one.
\<close>

definition buffer_at :: "'a circular_buffer \<Rightarrow> size_t \<Rightarrow> fault + nat" where
  "buffer_at c p = (if unat p < length (m_buffer c) then Inr (unat p) else Inl OutsideStorage)"

definition deref :: "'a circular_buffer \<Rightarrow> nat \<Rightarrow> 'a" where
  "deref c r = m_buffer c ! r"

definition assign :: "'a circular_buffer \<Rightarrow> nat \<Rightarrow> 'a \<Rightarrow> 'a circular_buffer" where
  "assign c r x = c\<lparr>m_buffer := (m_buffer c)[r := x]\<rparr>"

subsection \<open>Private helpers\<close>

definition incrementtail :: "size_t \<Rightarrow> 'a circular_buffer \<Rightarrow> 'a circular_buffer" where
  "incrementtail N c =
     (let c1 = c\<lparr>m_tail := m_tail c + 1\<rparr>;
          c2 = c1\<lparr>m_size := m_size c1 + 1\<rparr>
      in if m_tail c2 = N then c2\<lparr>m_tail := 0\<rparr> else c2)"

definition increment_head :: "size_t \<Rightarrow> 'a circular_buffer \<Rightarrow> 'a circular_buffer" where
  "increment_head N c =
     (let c1 = c\<lparr>m_head := m_head c + 1\<rparr>;
          c2 = c1\<lparr>m_size := m_size c1 - 1\<rparr>
      in if m_head c2 = N then c2\<lparr>m_head := 0\<rparr> else c2)"

definition position_inbuffer :: "size_t \<Rightarrow> 'a circular_buffer \<Rightarrow> size_t \<Rightarrow> fault + size_t" where
  "position_inbuffer N c i = (if N = 0 then Inl ModuloByZero else Inr ((m_head c + i) mod N))"

subsection \<open>Capacity\<close>

definition size_cb :: "'a circular_buffer \<Rightarrow> size_t" where
  "size_cb c = m_size c"

definition empty_cb :: "'a circular_buffer \<Rightarrow> bool" where
  "empty_cb c = (size_cb c = 0)"

definition full :: "size_t \<Rightarrow> 'a circular_buffer \<Rightarrow> bool" where
  "full N c = (size_cb c = N)"

definition clear :: "'a circular_buffer \<Rightarrow> 'a circular_buffer" where
  "clear c = c\<lparr>m_size := 0, m_tail := 0, m_head := 1\<rparr>"

subsection \<open>Element access\<close>

text \<open>\<open>subscript\<close> is \<^verbatim>\<open>operator[]\<close>; its two overloads have the same body, and so have
  the two of \<^verbatim>\<open>at\<close>.\<close>

definition subscript :: "size_t \<Rightarrow> 'a circular_buffer \<Rightarrow> size_t \<Rightarrow> fault + nat" where
  "subscript N c i =
     (case position_inbuffer N c i of Inl e \<Rightarrow> Inl e | Inr p \<Rightarrow> buffer_at c p)"

definition at :: "size_t \<Rightarrow> 'a circular_buffer \<Rightarrow> size_t \<Rightarrow> fault + nat" where
  "at N c i =
     (if i \<ge> N then Inl OutOfRange
      else case position_inbuffer N c i of Inl e \<Rightarrow> Inl e | Inr p \<Rightarrow> buffer_at c p)"

subsection \<open>Iterators\<close>

text \<open>
  A \<^verbatim>\<open>circular_buffer_iterator\<close> holds a pointer to its buffer and a logical position.
  The model passes the buffer to each operation, so only the position \<^verbatim>\<open>_pos\<close> is
  kept. \<open>iter_deref\<close> is \<^verbatim>\<open>operator*\<close>, \<open>iter_inc\<close> is \<^verbatim>\<open>operator++\<close> and
  \<open>iter_minus\<close> is \<^verbatim>\<open>operator-\<close>.
\<close>

record circular_buffer_iterator =
  m_pos :: size_t

definition begin_cb :: "'a circular_buffer \<Rightarrow> circular_buffer_iterator" where
  "begin_cb c = \<lparr>m_pos = 0\<rparr>"

definition end_cb :: "'a circular_buffer \<Rightarrow> circular_buffer_iterator" where
  "end_cb c = \<lparr>m_pos = size_cb c\<rparr>"

definition iter_deref :: "size_t \<Rightarrow> 'a circular_buffer \<Rightarrow> circular_buffer_iterator \<Rightarrow> fault + nat" where
  "iter_deref N c it = subscript N c (m_pos it)"

definition iter_inc :: "circular_buffer_iterator \<Rightarrow> circular_buffer_iterator" where
  "iter_inc it = it\<lparr>m_pos := m_pos it + 1\<rparr>"

definition iter_minus :: "circular_buffer_iterator \<Rightarrow> size_t \<Rightarrow> circular_buffer_iterator" where
  "iter_minus it n = it\<lparr>m_pos := m_pos it - n\<rparr>"

subsection \<open>front and back\<close>

text \<open>
  The mutable overloads return a reference. The const overload of \<^verbatim>\<open>front\<close> has the
  body of the mutable one. The const overload of \<^verbatim>\<open>back\<close> is written
  \<^verbatim>\<open>N ? *end()-1 : *end()\<close>: for \<^verbatim>\<open>N != 0\<close> it reads the element at \<^verbatim>\<open>end()\<close> and
  subtracts one from it, so what it yields is a value of \<^verbatim>\<open>T\<close>, not a slot.
\<close>

definition front :: "size_t \<Rightarrow> 'a circular_buffer \<Rightarrow> fault + nat" where
  "front N c = iter_deref N c (begin_cb c)"

definition back_cb :: "size_t \<Rightarrow> 'a circular_buffer \<Rightarrow> fault + nat" where
  "back_cb N c =
     (if N \<noteq> 0 then iter_deref N c (iter_minus (end_cb c) 1) else iter_deref N c (end_cb c))"

definition back_const :: "size_t \<Rightarrow> ('a::{minus,one}) circular_buffer \<Rightarrow> fault + 'a" where
  "back_const N c =
     (if N \<noteq> 0
      then (case iter_deref N c (end_cb c) of Inl e \<Rightarrow> Inl e | Inr r \<Rightarrow> Inr (deref c r - 1))
      else (case iter_deref N c (end_cb c) of Inl e \<Rightarrow> Inl e | Inr r \<Rightarrow> Inr (deref c r)))"

subsection \<open>Adding and removing\<close>

definition push_back :: "size_t \<Rightarrow> 'a \<Rightarrow> 'a circular_buffer \<Rightarrow> fault + 'a circular_buffer" where
  "push_back N item c =
     (let c1 = incrementtail N c;
          c2 = (if m_size c1 = N then increment_head N c1 else c1)
      in case buffer_at c2 (m_tail c2) of
           Inl e \<Rightarrow> Inl e
         | Inr r \<Rightarrow> Inr (assign c2 r item))"

definition pop_front :: "size_t \<Rightarrow> 'a circular_buffer \<Rightarrow> 'a circular_buffer" where
  "pop_front N c = increment_head N c"

text \<open>
  \<^verbatim>\<open>fill(u)\<close> is \<^verbatim>\<open>std::fill_n(begin(), size(), u)\<close>: the loop of \<^verbatim>\<open>fill_n\<close> assigns
  through the iterator and advances it, \<open>n\<close> times.
\<close>

fun fill_n :: "size_t \<Rightarrow> circular_buffer_iterator \<Rightarrow> nat \<Rightarrow> 'a \<Rightarrow> 'a circular_buffer
    \<Rightarrow> fault + 'a circular_buffer" where
  "fill_n N first 0 u c = Inr c"
| "fill_n N first (Suc n) u c =
     (case iter_deref N c first of
        Inl e \<Rightarrow> Inl e
      | Inr r \<Rightarrow> fill_n N (iter_inc first) n u (assign c r u))"

definition fill :: "size_t \<Rightarrow> 'a \<Rightarrow> 'a circular_buffer \<Rightarrow> fault + 'a circular_buffer" where
  "fill N u c = fill_n N (begin_cb c) (unat (size_cb c)) u c"

subsection \<open>Reading the logical sequence\<close>

text \<open>
  The loop \<^verbatim>\<open>for (it = begin(); it != end(); ++it)\<close> of a caller, collecting \<^verbatim>\<open>*it\<close>.
  The position runs from 0 to \<^verbatim>\<open>size()\<close> in steps of one, so the body runs
  \<^verbatim>\<open>size()\<close> times.
\<close>

fun collect :: "size_t \<Rightarrow> 'a circular_buffer \<Rightarrow> circular_buffer_iterator \<Rightarrow> nat \<Rightarrow> fault + 'a list" where
  "collect N c it 0 = Inr []"
| "collect N c it (Suc n) =
     (case iter_deref N c it of
        Inl e \<Rightarrow> Inl e
      | Inr r \<Rightarrow>
          (case collect N c (iter_inc it) n of
             Inl e \<Rightarrow> Inl e
           | Inr xs \<Rightarrow> Inr (deref c r # xs)))"

definition to_list :: "size_t \<Rightarrow> 'a circular_buffer \<Rightarrow> fault + 'a list" where
  "to_list N c = collect N c (begin_cb c) (unat (size_cb c))"

text \<open>A caller pushing the items of a list, one after the other.\<close>

fun push_all :: "size_t \<Rightarrow> 'a list \<Rightarrow> 'a circular_buffer \<Rightarrow> fault + 'a circular_buffer" where
  "push_all N [] c = Inr c"
| "push_all N (x # xs) c =
     (case push_back N x c of Inl e \<Rightarrow> Inl e | Inr c' \<Rightarrow> push_all N xs c')"

subsection \<open>Callers\<close>

text \<open>
  The claims speak of what a caller sees after a sequence of calls. \<open>reachable N\<close> holds
  of every state a caller can bring a buffer into: it starts from a constructed buffer
  whose storage has the length of the array, and applies \<^verbatim>\<open>push_back\<close>, \<^verbatim>\<open>pop_front\<close>
  on a non-empty buffer, \<^verbatim>\<open>fill\<close> and \<^verbatim>\<open>clear\<close>.
\<close>

inductive reachable :: "size_t \<Rightarrow> 'a circular_buffer \<Rightarrow> bool" for N :: size_t where
  fresh: "length bs = storage_slots N \<Longrightarrow> reachable N (constructed bs)"
| pushed: "reachable N c \<Longrightarrow> push_back N x c = Inr c' \<Longrightarrow> reachable N c'"
| popped: "reachable N c \<Longrightarrow> \<not> empty_cb c \<Longrightarrow> reachable N (pop_front N c)"
| filled: "reachable N c \<Longrightarrow> fill N u c = Inr c' \<Longrightarrow> reachable N c'"
| cleared: "reachable N c \<Longrightarrow> reachable N (clear c)"

text \<open>
  A caller that repeats \<^verbatim>\<open>pop_front(); push_back(y)\<close> for the items \<open>y\<close> of a list.
  \<^verbatim>\<open>pop_front\<close> itself checks nothing; it is the caller's contract to call it on a
  non-empty buffer only, and \<open>PopOnEmpty\<close> records that this caller would have broken it.
\<close>

datatype run_error = PopOnEmpty | Failed fault

fun pop_push_cycles :: "size_t \<Rightarrow> 'a list \<Rightarrow> 'a circular_buffer \<Rightarrow> run_error + 'a circular_buffer" where
  "pop_push_cycles N [] c = Inr c"
| "pop_push_cycles N (y # ys) c =
     (if empty_cb c then Inl PopOnEmpty
      else case push_back N y (pop_front N c) of
             Inl e \<Rightarrow> Inl (Failed e)
           | Inr c' \<Rightarrow> pop_push_cycles N ys c')"

subsection \<open>The invariant and the logical sequence\<close>

text \<open>
  \<open>ring_inv\<close> is what the operations keep true when \<open>N\<close> is not 0: the storage has
  \<open>N\<close> slots, the counter and the tail stay below \<open>N\<close>, so does the head unless
  \<open>N = 1\<close> (where the head starts at 1 and is never reset), and the slot after the tail
  is the slot after the last element. \<open>logical\<close> lists the stored elements from the
  oldest to the newest, with the indices computed in \<open>nat\<close>; \<open>newest k xs\<close> is the
  list of the last \<open>k\<close> items of \<open>xs\<close>.
\<close>

definition ring_inv :: "size_t \<Rightarrow> 'a circular_buffer \<Rightarrow> bool" where
  "ring_inv N c =
     (N \<noteq> 0 \<and> length (m_buffer c) = unat N \<and> m_size c < N \<and> m_tail c < N \<and>
      (m_head c < N \<or> N = 1) \<and>
      (unat (m_head c) + unat (m_size c)) mod unat N = (unat (m_tail c) + 1) mod unat N)"

definition logical :: "size_t \<Rightarrow> 'a circular_buffer \<Rightarrow> 'a list" where
  "logical N c = map (\<lambda>i. m_buffer c ! ((unat (m_head c) + i) mod unat N)) [0..<unat (m_size c)]"

definition newest :: "nat \<Rightarrow> 'a list \<Rightarrow> 'a list" where
  "newest k xs = drop (length xs - k) xs"

section \<open>Arithmetic on the counters\<close>

lemma sz_succ_unat: "(x::size_t) < N \<Longrightarrow> unat (x + 1) = unat x + 1"
  by unat_arith

lemma sz_succ_eq_iff: "(x::size_t) < N \<Longrightarrow> (x + 1 = N) = (unat x + 1 = unat N)"
  by unat_arith

lemma sz_pred_unat: "(x::size_t) \<noteq> 0 \<Longrightarrow> unat (x - 1) = unat x - 1"
  by unat_arith

lemma sz_one_cases: "(N::size_t) \<noteq> 0 \<Longrightarrow> N = 1 \<or> 1 < N"
  by unat_arith

lemma mod_add_inj_le:
  fixes a b h n :: nat
  assumes "a \<le> b" and "b < n" and "(h + a) mod n = (h + b) mod n"
  shows "a = b"
proof -
  have "n dvd (h + b) - (h + a)"
    using assms(1,3) mod_eq_dvd_iff_nat [of "h + a" "h + b" n] by simp
  then have "n dvd b - a" by simp
  moreover have "b - a < n" using assms(2) by simp
  ultimately have "b - a = 0" using nat_dvd_not_less by (cases "b - a = 0") auto
  with assms(1) show ?thesis by simp
qed

lemma mod_add_inj:
  fixes i j h n :: nat
  assumes "i < n" and "j < n" and "(h + i) mod n = (h + j) mod n"
  shows "i = j"
proof (cases "i \<le> j")
  case True
  then show ?thesis using assms mod_add_inj_le [of i j n h] by simp
next
  case False
  then have "j \<le> i" by simp
  then show ?thesis using assms mod_add_inj_le [of j i n h] by simp
qed

lemma sz_wrap_unat:
  "(x::size_t) < N \<Longrightarrow> unat (if x + 1 = N then 0 else x + 1) = (unat x + 1) mod unat N"
proof (cases "x + 1 = N")
  case True
  assume "x < N"
  with True have "unat x + 1 = unat N" by (simp add: sz_succ_eq_iff)
  with True show ?thesis by simp
next
  case False
  assume lt: "x < N"
  with False have "unat x + 1 \<noteq> unat N" by (simp add: sz_succ_eq_iff)
  moreover from lt have "unat x < unat N" by (simp add: word_less_nat_alt)
  ultimately have "unat x + 1 < unat N" by simp
  with False lt show ?thesis by (simp add: sz_succ_unat)
qed

section \<open>One step of each operation\<close>

lemma incrementtail_fields:
  "m_size (incrementtail N c) = m_size c + 1"
  "m_head (incrementtail N c) = m_head c"
  "m_buffer (incrementtail N c) = m_buffer c"
  "m_tail (incrementtail N c) = (if m_tail c + 1 = N then 0 else m_tail c + 1)"
  by (simp_all add: incrementtail_def Let_def)

lemma increment_head_fields:
  "m_size (increment_head N c) = m_size c - 1"
  "m_tail (increment_head N c) = m_tail c"
  "m_buffer (increment_head N c) = m_buffer c"
  "m_head (increment_head N c) = (if m_head c + 1 = N then 0 else m_head c + 1)"
  by (simp_all add: increment_head_def Let_def)

lemma buffer_at_in_range:
  "unat p < length (m_buffer c) \<Longrightarrow> buffer_at c p = Inr (unat p)"
  by (simp add: buffer_at_def)

lemma mod_succ_cong:
  fixes a b n :: nat
  assumes "a mod n = b mod n"
  shows "(a + 1) mod n = (b + 1) mod n"
  using assms by (metis mod_add_left_eq)

lemma push_back_step:
  assumes inv: "ring_inv N c"
  shows "\<exists>c'. push_back N x c = Inr c' \<and> ring_inv N c' \<and>
           m_buffer c' = (m_buffer c)[(unat (m_tail c) + 1) mod unat N := x] \<and>
           unat (m_tail c') = (unat (m_tail c) + 1) mod unat N \<and>
           (if unat (m_size c) + 1 = unat N
            then m_size c' = m_size c \<and> unat (m_head c') mod unat N = (unat (m_head c) + 1) mod unat N
            else m_size c' = m_size c + 1 \<and> m_head c' = m_head c)"
proof -
  from inv have N0: "N \<noteq> 0" and len: "length (m_buffer c) = unat N"
    and sz: "m_size c < N" and tl: "m_tail c < N" and hd: "m_head c < N \<or> N = 1"
    and rel: "(unat (m_head c) + unat (m_size c)) mod unat N = (unat (m_tail c) + 1) mod unat N"
    by (simp_all add: ring_inv_def)
  from N0 have n0: "0 < unat N" by (simp add: unat_gt_0)
  define t' :: size_t where "t' = (if m_tail c + 1 = N then 0 else m_tail c + 1)"
  have t'_unat: "unat t' = (unat (m_tail c) + 1) mod unat N"
    unfolding t'_def using tl by (rule sz_wrap_unat)
  with n0 have t'_lt: "unat t' < unat N" by simp
  show ?thesis
  proof (cases "m_size c + 1 = N")
    case True
    with sz have full: "unat (m_size c) + 1 = unat N" by (simp add: sz_succ_eq_iff)
    define h' :: size_t where "h' = (if m_head c + 1 = N then 0 else m_head c + 1)"
    let ?c' = "\<lparr>m_buffer = (m_buffer c)[unat t' := x], m_size = m_size c, m_tail = t', m_head = h'\<rparr>"
    have pb: "push_back N x c = Inr ?c'"
      using True [symmetric] t'_lt len
      by (cases c) (auto simp: push_back_def Let_def buffer_at_def assign_def t'_def h'_def
          incrementtail_def increment_head_def)
    have h'_mod: "unat h' mod unat N = (unat (m_head c) + 1) mod unat N"
    proof (cases "N = 1")
      case True
      then show ?thesis by simp
    next
      case False
      with hd have "m_head c < N" by simp
      then have "unat h' = (unat (m_head c) + 1) mod unat N"
        unfolding h'_def by (rule sz_wrap_unat)
      then show ?thesis by simp
    qed
    have h'_lt: "h' < N \<or> N = 1"
    proof (cases "N = 1")
      case True
      then show ?thesis by simp
    next
      case False
      with hd have "m_head c < N" by simp
      then have "unat h' = (unat (m_head c) + 1) mod unat N"
        unfolding h'_def by (rule sz_wrap_unat)
      with n0 have "unat h' < unat N" by simp
      then show ?thesis by (simp add: word_less_nat_alt)
    qed
    have "(unat h' + unat (m_size c)) mod unat N = (unat h' mod unat N + unat (m_size c)) mod unat N"
      by (simp add: mod_add_left_eq)
    also have "\<dots> = ((unat (m_head c) + 1) + unat (m_size c)) mod unat N"
      by (simp add: h'_mod mod_add_left_eq)
    also have "\<dots> = ((unat (m_head c) + unat (m_size c)) + 1) mod unat N"
      by (simp add: add.commute add.left_commute)
    also have "\<dots> = ((unat (m_tail c) + 1) mod unat N + 1) mod unat N"
      using rel mod_succ_cong [of "unat (m_head c) + unat (m_size c)" "unat N" "(unat (m_tail c) + 1) mod unat N"]
      by simp
    also have "\<dots> = (unat t' + 1) mod unat N" by (simp add: t'_unat)
    finally have rel': "(unat h' + unat (m_size c)) mod unat N = (unat t' + 1) mod unat N" .
    have "ring_inv N ?c'"
      using N0 len sz t'_lt h'_lt rel' by (simp add: ring_inv_def word_less_nat_alt)
    with pb full t'_unat h'_mod show ?thesis by simp
  next
    case False
    with sz have nfull: "unat (m_size c) + 1 \<noteq> unat N" by (simp add: sz_succ_eq_iff)
    from sz have s1: "unat (m_size c + 1) = unat (m_size c) + 1" by (rule sz_succ_unat)
    from sz nfull have "unat (m_size c) + 1 < unat N" by (simp add: word_less_nat_alt)
    with s1 have sz': "m_size c + 1 < N" by (simp add: word_less_nat_alt)
    let ?c' = "\<lparr>m_buffer = (m_buffer c)[unat t' := x], m_size = m_size c + 1, m_tail = t', m_head = m_head c\<rparr>"
    have pb: "push_back N x c = Inr ?c'"
      using False t'_lt len
      by (cases c) (auto simp: push_back_def Let_def buffer_at_def assign_def t'_def
          incrementtail_def)
    have "(unat (m_head c) + unat (m_size c + 1)) mod unat N
            = ((unat (m_head c) + unat (m_size c)) + 1) mod unat N"
      by (simp add: s1)
    also have "\<dots> = ((unat (m_tail c) + 1) mod unat N + 1) mod unat N"
      using rel mod_succ_cong [of "unat (m_head c) + unat (m_size c)" "unat N" "(unat (m_tail c) + 1) mod unat N"]
      by simp
    also have "\<dots> = (unat t' + 1) mod unat N" by (simp add: t'_unat)
    finally have rel': "(unat (m_head c) + unat (m_size c + 1)) mod unat N = (unat t' + 1) mod unat N" .
    have "ring_inv N ?c'"
      using N0 len sz' t'_lt hd rel' by (simp add: ring_inv_def word_less_nat_alt)
    with pb nfull t'_unat show ?thesis by simp
  qed
qed

lemma pop_front_step:
  assumes inv: "ring_inv N c" and ne: "m_size c \<noteq> 0"
  shows "ring_inv N (pop_front N c) \<and>
         m_buffer (pop_front N c) = m_buffer c \<and>
         m_tail (pop_front N c) = m_tail c \<and>
         m_size (pop_front N c) = m_size c - 1 \<and>
         unat (m_head (pop_front N c)) = (unat (m_head c) + 1) mod unat N"
proof -
  from inv have N0: "N \<noteq> 0" and len: "length (m_buffer c) = unat N"
    and sz: "m_size c < N" and tl: "m_tail c < N" and hd: "m_head c < N \<or> N = 1"
    and rel: "(unat (m_head c) + unat (m_size c)) mod unat N = (unat (m_tail c) + 1) mod unat N"
    by (simp_all add: ring_inv_def)
  from N0 have n0: "0 < unat N" by (simp add: unat_gt_0)
  from ne have s0: "0 < unat (m_size c)" by (simp add: unat_gt_0)
  from sz ne have "N \<noteq> 1" by unat_arith
  with hd have hlt: "m_head c < N" by simp
  define h' :: size_t where "h' = (if m_head c + 1 = N then 0 else m_head c + 1)"
  have h'_unat: "unat h' = (unat (m_head c) + 1) mod unat N"
    unfolding h'_def using hlt by (rule sz_wrap_unat)
  with n0 have h'_lt: "h' < N" by (simp add: word_less_nat_alt)
  from ne have s': "unat (m_size c - 1) = unat (m_size c) - 1" by (rule sz_pred_unat)
  with sz have sz': "m_size c - 1 < N" by (simp add: word_less_nat_alt)
  have fields: "m_buffer (pop_front N c) = m_buffer c" "m_tail (pop_front N c) = m_tail c"
    "m_size (pop_front N c) = m_size c - 1" "m_head (pop_front N c) = h'"
    by (simp_all add: pop_front_def increment_head_fields h'_def)
  have "(unat h' + unat (m_size c - 1)) mod unat N
          = ((unat (m_head c) + 1) mod unat N + (unat (m_size c) - 1)) mod unat N"
    by (simp add: h'_unat s')
  also have "\<dots> = ((unat (m_head c) + 1) + (unat (m_size c) - 1)) mod unat N"
    by (simp add: mod_add_left_eq)
  also have "\<dots> = (unat (m_head c) + unat (m_size c)) mod unat N"
    using s0 by simp
  finally have rel': "(unat h' + unat (m_size c - 1)) mod unat N = (unat (m_tail c) + 1) mod unat N"
    using rel by simp
  have "ring_inv N (pop_front N c)"
    using N0 len sz' tl h'_lt rel' by (simp add: ring_inv_def fields)
  then show ?thesis by (simp add: fields h'_unat)
qed

lemma length_logical: "length (logical N c) = unat (m_size c)"
  by (simp add: logical_def)

lemma logical_push:
  assumes inv: "ring_inv N c" and pb: "push_back N x c = Inr c'"
  shows "logical N c' =
           (if unat (m_size c) + 1 = unat N then tl (logical N c @ [x]) else logical N c @ [x])"
proof -
  from inv have N0: "N \<noteq> 0" and len: "length (m_buffer c) = unat N"
    and sz: "m_size c < N"
    and rel: "(unat (m_head c) + unat (m_size c)) mod unat N = (unat (m_tail c) + 1) mod unat N"
    by (simp_all add: ring_inv_def)
  from N0 have n0: "0 < unat N" by (simp add: unat_gt_0)
  from sz have slt: "unat (m_size c) < unat N" by (simp add: word_less_nat_alt)
  define n where "n = unat N"
  define h where "h = unat (m_head c)"
  define s where "s = unat (m_size c)"
  define b where "b = m_buffer c"
  define w where "w = (h + s) mod n"
  from push_back_step [OF inv, of x] pb
  have buf: "m_buffer c' = b[w := x]"
    and step: "if s + 1 = n
            then m_size c' = m_size c \<and> unat (m_head c') mod n = (h + 1) mod n
            else m_size c' = m_size c + 1 \<and> m_head c' = m_head c"
    using rel by (auto simp: n_def h_def s_def b_def w_def)
  have wlt: "w < length b" using n0 len by (simp add: w_def n_def b_def)
  have other: "b[w := x] ! ((h + i) mod n) = b ! ((h + i) mod n)" if "i < s" for i
  proof -
    have "(h + i) mod n \<noteq> (h + s) mod n"
      using mod_add_inj [of i n s h] that slt by (auto simp: s_def n_def)
    then show ?thesis by (simp add: w_def)
  qed
  have old: "logical N c = map (\<lambda>i. b ! ((h + i) mod n)) [0..<s]"
    by (simp add: logical_def n_def h_def s_def b_def)
  show ?thesis
  proof (cases "s + 1 = n")
    case False
    with step have sz': "m_size c' = m_size c + 1" and hd': "m_head c' = m_head c" by simp_all
    from sz have "unat (m_size c + 1) = s + 1" by (simp add: sz_succ_unat s_def)
    then have "logical N c' = map (\<lambda>i. b[w := x] ! ((h + i) mod n)) [0..<s + 1]"
      by (simp add: logical_def sz' hd' buf n_def h_def)
    also have "\<dots> = map (\<lambda>i. b[w := x] ! ((h + i) mod n)) [0..<s] @ [b[w := x] ! w]"
      by (simp add: w_def)
    also have "map (\<lambda>i. b[w := x] ! ((h + i) mod n)) [0..<s] = map (\<lambda>i. b ! ((h + i) mod n)) [0..<s]"
      by (rule map_cong) (simp_all add: other)
    finally show ?thesis using False wlt by (simp add: old s_def n_def)
  next
    case True
    with step have sz': "m_size c' = m_size c" and hd': "unat (m_head c') mod n = (h + 1) mod n"
      by simp_all
    have pos: "(unat (m_head c') + i) mod n = (h + (i + 1)) mod n" for i
    proof -
      have "(unat (m_head c') + i) mod n = (unat (m_head c') mod n + i) mod n"
        by (simp add: mod_add_left_eq)
      also have "\<dots> = ((h + 1) + i) mod n" by (simp add: hd' mod_add_left_eq)
      finally show ?thesis by (simp add: add.assoc add.commute)
    qed
    have new: "logical N c' = map (\<lambda>i. b[w := x] ! ((h + (i + 1)) mod n)) [0..<s]"
      by (simp add: logical_def sz' buf pos n_def [symmetric] s_def)
    have "logical N c' = tl (logical N c @ [x])"
    proof (rule nth_equalityI)
      show "length (logical N c') = length (tl (logical N c @ [x]))"
        by (simp add: new old)
    next
      fix i assume "i < length (logical N c')"
      then have i: "i < s" by (simp add: new)
      have lhs: "logical N c' ! i = b[w := x] ! ((h + (i + 1)) mod n)"
        using i by (simp add: new)
      have "tl (logical N c @ [x]) ! i = (logical N c @ [x]) ! Suc i"
        by (rule nth_tl) (simp add: old i)
      then have rhs: "tl (logical N c @ [x]) ! i = (logical N c @ [x]) ! (i + 1)"
        by simp
      show "logical N c' ! i = tl (logical N c @ [x]) ! i"
      proof (cases "i + 1 < s")
        case True
        then show ?thesis using lhs rhs other [of "i + 1"] by (simp add: old nth_append)
      next
        case False
        with i have "i + 1 = s" by simp
        then show ?thesis using lhs rhs wlt by (simp add: old nth_append w_def)
      qed
    qed
    with True show ?thesis by (simp add: s_def n_def)
  qed
qed

lemma logical_pop:
  assumes inv: "ring_inv N c" and ne: "m_size c \<noteq> 0"
  shows "logical N (pop_front N c) = tl (logical N c)"
proof -
  define n where "n = unat N"
  define h where "h = unat (m_head c)"
  define s where "s = unat (m_size c)"
  define b where "b = m_buffer c"
  from pop_front_step [OF inv ne]
  have buf: "m_buffer (pop_front N c) = b" and sz': "m_size (pop_front N c) = m_size c - 1"
    and hd': "unat (m_head (pop_front N c)) = (h + 1) mod n"
    by (simp_all add: b_def h_def n_def)
  from ne have s': "unat (m_size c - 1) = s - 1" by (simp add: sz_pred_unat s_def)
  have pos: "((h + 1) mod n + i) mod n = (h + (i + 1)) mod n" for i
  proof -
    have "((h + 1) mod n + i) mod n = ((h + 1) + i) mod n" by (rule mod_add_left_eq)
    also have "(h + 1) + i = h + (i + 1)" by simp
    finally show ?thesis .
  qed
  then have pos': "(Suc h mod n + i) mod n = Suc (h + i) mod n" for i
    using pos [of i] by simp
  have new: "logical N (pop_front N c) = map (\<lambda>i. b ! ((h + (i + 1)) mod n)) [0..<s - 1]"
    by (simp add: logical_def buf sz' hd' s' pos' n_def [symmetric])
  have old: "logical N c = map (\<lambda>i. b ! ((h + i) mod n)) [0..<s]"
    by (simp add: logical_def n_def h_def s_def b_def)
  show ?thesis
  proof (rule nth_equalityI)
    show "length (logical N (pop_front N c)) = length (tl (logical N c))"
      by (simp add: new old)
  next
    fix i assume "i < length (logical N (pop_front N c))"
    then have i: "i < s - 1" by (simp add: new)
    then have "Suc i < s" by simp
    with i show "logical N (pop_front N c) ! i = tl (logical N c) ! i"
      by (simp add: new old nth_tl)
  qed
qed

section \<open>Element access and traversal\<close>

text \<open>
  With a capacity other than 0 and the storage of the array, \<^verbatim>\<open>operator[]\<close> never leaves
  the storage, and a traversal from \<^verbatim>\<open>begin()\<close> to \<^verbatim>\<open>end()\<close> reads the slots
  \<^verbatim>\<open>(_head + i) % N\<close> for \<open>i\<close> from 0 to \<^verbatim>\<open>size() - 1\<close>. The sum is a sum of
  \<^verbatim>\<open>std::size_t\<close>; \<open>position_no_wrap\<close> says when it is the sum of the numbers. An array
  of \<open>N\<close> elements is an object of at most \<open>2^63 - 1\<close> bytes, so \<open>N < 2^63\<close> for every
  buffer that exists, and then the sum never wraps on the stored elements.
\<close>

lemma subscript_in_storage:
  assumes "N \<noteq> 0" and "length (m_buffer c) = unat N"
  shows "subscript N c i = Inr (unat ((m_head c + i) mod N))"
proof -
  from assms(1) have "0 < unat N" by (simp add: unat_gt_0)
  then have "unat ((m_head c + i) mod N) < unat N" by (simp add: unat_mod_distrib)
  with assms show ?thesis by (simp add: subscript_def position_inbuffer_def buffer_at_def)
qed

lemma collect_word:
  assumes "N \<noteq> 0" and "length (m_buffer c) = unat N"
  shows "collect N c \<lparr>m_pos = p\<rparr> k =
           Inr (map (\<lambda>i. m_buffer c ! unat ((m_head c + (p + of_nat i)) mod N)) [0..<k])"
proof (induction k arbitrary: p)
  case 0
  show ?case by simp
next
  case (Suc k)
  have "map (\<lambda>i. m_buffer c ! unat ((m_head c + (p + of_nat i)) mod N)) [0..<Suc k]
          = m_buffer c ! unat ((m_head c + p) mod N)
            # map (\<lambda>i. m_buffer c ! unat ((m_head c + (p + 1 + of_nat i)) mod N)) [0..<k]"
    by (simp add: map_upt_Suc add.assoc add.commute add.left_commute del: upt_Suc)
  then show ?case
    using Suc.IH [of "p + 1"] assms
    by (simp add: iter_deref_def iter_inc_def subscript_in_storage deref_def del: upt_Suc)
qed

lemma to_list_word:
  assumes "N \<noteq> 0" and "length (m_buffer c) = unat N"
  shows "to_list N c =
           Inr (map (\<lambda>i. m_buffer c ! unat ((m_head c + of_nat i) mod N)) [0..<unat (m_size c)])"
  using collect_word [OF assms, of 0 "unat (m_size c)"]
  by (simp add: to_list_def begin_cb_def size_cb_def)

lemma position_no_wrap:
  fixes h i N :: size_t
  assumes "unat h + unat i < 2 ^ 64"
  shows "unat ((h + i) mod N) = (unat h + unat i) mod unat N"
proof -
  from assms have "unat (h + i) = unat h + unat i"
    using unat_add_lem [of h i] by simp
  then show ?thesis by (simp add: unat_mod_distrib)
qed

lemma to_list_logical:
  assumes inv: "ring_inv N c" and cap: "unat N < 2 ^ 63"
  shows "to_list N c = Inr (logical N c)"
proof -
  from inv have N0: "N \<noteq> 0" and len: "length (m_buffer c) = unat N"
    and sz: "m_size c < N" and hd: "m_head c < N \<or> N = 1"
    by (simp_all add: ring_inv_def)
  have "m_buffer c ! unat ((m_head c + of_nat i) mod N)
          = m_buffer c ! ((unat (m_head c) + i) mod unat N)" if "i < unat (m_size c)" for i
  proof -
    from that sz have ilt: "i < unat N" by (simp add: word_less_nat_alt)
    with cap have i64: "i < 2 ^ 64" by simp
    then have ui: "unat (of_nat i :: size_t) = i" by (simp add: unat_of_nat)
    from that sz have "N \<noteq> 1" by (auto simp: word_less_nat_alt)
    with hd have "unat (m_head c) < unat N" by (simp add: word_less_nat_alt)
    with ilt cap have "unat (m_head c) + unat (of_nat i :: size_t) < 2 ^ 64" by (simp add: ui)
    then show ?thesis using position_no_wrap [of "m_head c" "of_nat i" N] by (simp add: ui)
  qed
  then show ?thesis
    using to_list_word [OF N0 len] by (simp add: logical_def)
qed

lemma front_back_mutable:
  assumes N0: "N \<noteq> 0" and st: "length (m_buffer c) = storage_slots N" and ne: "\<not> empty_cb c"
  shows "\<exists>xs. to_list N c = Inr xs \<and> xs \<noteq> [] \<and>
           (\<exists>r. front N c = Inr r \<and> deref c r = hd xs) \<and>
           (\<exists>r. back_cb N c = Inr r \<and> deref c r = last xs)"
proof -
  from N0 st have len: "length (m_buffer c) = unat N" by (simp add: storage_slots_def)
  from ne have s0: "m_size c \<noteq> 0" by (simp add: empty_cb_def size_cb_def)
  then have pos: "0 < unat (m_size c)" by (simp add: unat_gt_0)
  define f where "f = (\<lambda>i. m_buffer c ! unat ((m_head c + of_nat i) mod N))"
  have tl: "to_list N c = Inr (map f [0..<unat (m_size c)])"
    using to_list_word [OF N0 len] by (simp add: f_def)
  from pos have nonempty: "map f [0..<unat (m_size c)] \<noteq> []" by simp
  have fr: "front N c = Inr (unat ((m_head c + 0) mod N))"
    using subscript_in_storage [OF N0 len, of 0]
    by (simp add: front_def iter_deref_def begin_cb_def)
  from pos have h: "hd (map f [0..<unat (m_size c)]) = f 0"
    by (simp add: hd_map)
  from s0 have "unat (m_size c - 1) = unat (m_size c) - 1" by (rule sz_pred_unat)
  then have "of_nat (unat (m_size c) - 1) = (of_nat (unat (m_size c - 1)) :: size_t)" by simp
  then have "of_nat (unat (m_size c) - 1) = m_size c - 1" by simp
  then have fl: "f (unat (m_size c) - 1) = m_buffer c ! unat ((m_head c + (m_size c - 1)) mod N)"
    by (simp add: f_def)
  have bk: "back_cb N c = Inr (unat ((m_head c + (m_size c - 1)) mod N))"
    using N0 subscript_in_storage [OF N0 len, of "m_size c - 1"]
    by (simp add: back_cb_def iter_deref_def iter_minus_def end_cb_def size_cb_def)
  from pos have l: "last (map f [0..<unat (m_size c)]) = f (unat (m_size c) - 1)"
    by (simp add: last_map)
  from tl nonempty fr h bk l fl show ?thesis
    by (simp add: deref_def f_def)
qed

lemma back_const_reads_end:
  assumes N0: "N \<noteq> 0" and st: "length (m_buffer c) = storage_slots N"
  shows "back_const N c = Inr (deref c (unat ((m_head c + size_cb c) mod N)) - 1)"
proof -
  from N0 st have len: "length (m_buffer c) = unat N" by (simp add: storage_slots_def)
  from subscript_in_storage [OF N0 len, of "size_cb c"] N0 show ?thesis
    by (simp add: back_const_def iter_deref_def end_cb_def)
qed

section \<open>Evaluation on concrete buffers\<close>

lemma collect_numeral:
  "collect N c it (numeral k) =
     (case iter_deref N c it of
        Inl e \<Rightarrow> Inl e
      | Inr r \<Rightarrow>
          (case collect N c (iter_inc it) (pred_numeral k) of
             Inl e \<Rightarrow> Inl e
           | Inr xs \<Rightarrow> Inr (deref c r # xs)))"
  by (simp add: numeral_eq_Suc)

lemmas cb_eval = push_back_def incrementtail_def increment_head_def buffer_at_def assign_def
  constructed_def Let_def position_inbuffer_def subscript_def iter_deref_def begin_cb_def end_cb_def
  iter_inc_def iter_minus_def deref_def size_cb_def empty_cb_def full_def to_list_def pop_front_def
  back_cb_def back_const_def front_def at_def storage_slots_def collect_numeral

section \<open>Sequences of calls\<close>

lemma ring_inv_constructed:
  assumes "N \<noteq> 0" and "length bs = storage_slots N"
  shows "ring_inv N (constructed bs)"
proof -
  from assms(1) have "N = 1 \<or> 1 < N" by (rule sz_one_cases)
  moreover from assms(1) have "0 < N" by (simp add: word_neq_0_conv)
  ultimately show ?thesis
    using assms by (auto simp: ring_inv_def constructed_def storage_slots_def)
qed

lemma ring_inv_clear:
  assumes "N \<noteq> 0" and "length (m_buffer c) = unat N"
  shows "ring_inv N (clear c)"
proof -
  from assms(1) have "N = 1 \<or> 1 < N" by (rule sz_one_cases)
  moreover from assms(1) have "0 < N" by (simp add: word_neq_0_conv)
  ultimately show ?thesis
    using assms by (auto simp: ring_inv_def clear_def)
qed

lemma fill_n_frame:
  assumes "fill_n N first k u c = Inr c'"
  shows "m_size c' = m_size c \<and> m_tail c' = m_tail c \<and> m_head c' = m_head c \<and>
         length (m_buffer c') = length (m_buffer c)"
  using assms
proof (induction k arbitrary: first c)
  case 0
  then show ?case by simp
next
  case (Suc k)
  then show ?case
    by (auto simp: assign_def split: sum.splits dest!: Suc.IH)
qed

lemma ring_inv_fill:
  assumes "ring_inv N c" and "fill N u c = Inr c'"
  shows "ring_inv N c'"
  using assms fill_n_frame [of N "begin_cb c" "unat (size_cb c)" u c c']
  by (simp add: fill_def ring_inv_def)

lemma fill_n_returns:
  assumes "N \<noteq> 0" and "length (m_buffer c) = unat N"
  shows "\<exists>c'. fill_n N first k u c = Inr c'"
  using assms(2)
proof (induction k arbitrary: first c)
  case 0
  show ?case by simp
next
  case (Suc k)
  from subscript_in_storage [OF assms(1) Suc.prems, of "m_pos first"]
  have d: "iter_deref N c first = Inr (unat ((m_head c + m_pos first) mod N))"
    by (simp add: iter_deref_def)
  have "length (m_buffer (assign c (unat ((m_head c + m_pos first) mod N)) u)) = unat N"
    using Suc.prems by (simp add: assign_def)
  from Suc.IH [OF this] d show ?case by simp
qed

lemma fill_returns:
  assumes "ring_inv N c"
  shows "\<exists>c'. fill N u c = Inr c'"
  using assms fill_n_returns [of N c "begin_cb c" "unat (size_cb c)" u]
  by (simp add: fill_def ring_inv_def)

lemma reachable_ring_inv:
  assumes "reachable N c" and "N \<noteq> 0"
  shows "ring_inv N c"
  using assms
proof (induction rule: reachable.induct)
  case (fresh bs)
  then show ?case by (simp add: ring_inv_constructed)
next
  case (pushed c x c')
  then show ?case using push_back_step [of N c x] by auto
next
  case (popped c)
  then show ?case using pop_front_step [of N c] by (simp add: empty_cb_def size_cb_def)
next
  case (filled c u c')
  then show ?case using ring_inv_fill [of N c u c'] by simp
next
  case (cleared c)
  then show ?case using ring_inv_clear [of N c] by (simp add: ring_inv_def)
qed

lemma newest_push:
  assumes "length L < n"
  shows "(if length L + 1 = n then tl (L @ [x]) else L @ [x]) = newest (n - 1) (L @ [x])"
  using assms by (cases L) (auto simp: newest_def)

lemma newest_newest_append: "newest m (newest m A @ B) = newest m (A @ B)"
  by (cases "length A \<le> m") (auto simp: newest_def add.commute)

lemma push_all_logical:
  assumes "ring_inv N c"
  shows "\<exists>c'. push_all N xs c = Inr c' \<and> ring_inv N c' \<and>
              logical N c' = newest (unat N - 1) (logical N c @ xs)"
  using assms
proof (induction xs arbitrary: c)
  case Nil
  then have "unat (m_size c) < unat N" by (simp add: ring_inv_def word_less_nat_alt)
  with Nil show ?case by (simp add: newest_def length_logical)
next
  case (Cons x xs)
  from push_back_step [OF Cons.prems, of x] obtain c1
    where pb: "push_back N x c = Inr c1" and inv1: "ring_inv N c1" by blast
  from Cons.prems have "length (logical N c) < unat N"
    by (simp add: ring_inv_def word_less_nat_alt length_logical)
  then have l1: "logical N c1 = newest (unat N - 1) (logical N c @ [x])"
    using logical_push [OF Cons.prems pb] newest_push [of "logical N c" "unat N" x]
    by (simp add: length_logical)
  from Cons.IH [OF inv1] obtain c' where
    "push_all N xs c1 = Inr c'" "ring_inv N c'"
    "logical N c' = newest (unat N - 1) (logical N c1 @ xs)" by blast
  then show ?case
    using pb l1 newest_newest_append [of "unat N - 1" "logical N c @ [x]" xs] by simp
qed

lemma cycles_logical:
  assumes "ring_inv N c" and "m_size c \<noteq> 0"
  shows "\<exists>c'. pop_push_cycles N ys c = Inr c' \<and> ring_inv N c' \<and> m_size c' = m_size c \<and>
              logical N c' = drop (length ys) (logical N c @ ys)"
  using assms
proof (induction ys arbitrary: c)
  case Nil
  then show ?case by simp
next
  case (Cons y ys)
  let ?p = "pop_front N c"
  from pop_front_step [OF Cons.prems] have invp: "ring_inv N ?p"
    and szp: "m_size ?p = m_size c - 1" by simp_all
  from Cons.prems have slt: "unat (m_size c) < unat N" and s0: "0 < unat (m_size c)"
    by (simp_all add: ring_inv_def word_less_nat_alt unat_gt_0)
  from Cons.prems(2) have up: "unat (m_size ?p) = unat (m_size c) - 1"
    by (simp add: szp sz_pred_unat)
  with slt s0 have nf: "unat (m_size ?p) + 1 \<noteq> unat N" by simp
  from push_back_step [OF invp, of y] nf obtain c1
    where pb: "push_back N y ?p = Inr c1" and inv1: "ring_inv N c1"
      and sz1: "m_size c1 = m_size ?p + 1" by auto
  from sz1 szp have sz1': "m_size c1 = m_size c" by simp
  have l1: "logical N c1 = tl (logical N c) @ [y]"
    using logical_push [OF invp pb] nf logical_pop [OF Cons.prems] by simp
  from s0 have ne: "logical N c \<noteq> []" by (simp add: logical_def)
  from Cons.IH [OF inv1] Cons.prems(2) sz1' obtain c' where
    run: "pop_push_cycles N ys c1 = Inr c'" and inv': "ring_inv N c'" and sz': "m_size c' = m_size c1"
    and l': "logical N c' = drop (length ys) (logical N c1 @ ys)" by auto
  have "drop (length ys) ((tl (logical N c) @ [y]) @ ys) = drop (Suc (length ys)) (logical N c @ y # ys)"
    using ne by (cases "logical N c") simp_all
  with run inv' sz' l' l1 sz1' pb Cons.prems(2) show ?case
    by (simp add: empty_cb_def size_cb_def)
qed

lemma push_back_at_limit:
  assumes "m_size d = N - 1" and "push_back N y d = Inr d'"
  shows "m_size d' = N - 1"
proof -
  from assms(1) have "m_size (incrementtail N d) = N" by (simp add: incrementtail_fields)
  with assms show ?thesis
    by (auto simp: push_back_def Let_def increment_head_fields incrementtail_fields assign_def
        split: sum.splits)
qed

lemma newest_length_idem: "newest (length (newest k xs)) xs = newest k xs"
  by (cases "k \<le> length xs") (simp_all add: newest_def)

lemma newest_append_drop:
  assumes "k \<le> length xs"
  shows "drop (length ys) (newest k xs @ ys) = newest k (xs @ ys)"
  using assms by (simp add: newest_def add.commute)

lemma push_back_no_capacity:
  assumes "length bs = storage_slots 0"
  shows "push_back 0 x (constructed bs) = Inl OutsideStorage"
  using assms by (simp add: cb_eval)

lemma pushes_keep_newest:
  assumes N0: "N \<noteq> 0" and cap: "unat N < 2 ^ 63" and st: "length bs = storage_slots N"
  shows "\<exists>c. push_all N xs (constructed bs) = Inr c \<and>
             to_list N c = Inr (newest (unat N - 1) xs) \<and>
             unat (size_cb c) = min (length xs) (unat N - 1)"
proof -
  from N0 st have inv0: "ring_inv N (constructed bs)" by (rule ring_inv_constructed)
  have empty0: "logical N (constructed bs) = []" by (simp add: logical_def constructed_def)
  from push_all_logical [OF inv0, of xs] empty0 obtain c where
    run: "push_all N xs (constructed bs) = Inr c" and inv: "ring_inv N c"
    and l: "logical N c = newest (unat N - 1) xs" by auto
  from l have "unat (m_size c) = length (newest (unat N - 1) xs)"
    using length_logical [of N c] by simp
  then have "unat (size_cb c) = min (length xs) (unat N - 1)"
    by (simp add: newest_def size_cb_def)
  with run l to_list_logical [OF inv cap] show ?thesis by simp
qed

lemma reachable_example:
  "reachable 3 \<lparr>m_buffer = [0, 1, 2 :: int], m_size = 2, m_tail = 2, m_head = 1\<rparr>"
proof -
  have r0: "reachable 3 (constructed [0, 0, 0 :: int])"
    by (rule reachable.fresh) (simp add: storage_slots_def)
  have "push_back 3 1 (constructed [0, 0, 0 :: int])
          = Inr \<lparr>m_buffer = [0, 1, 0], m_size = 1, m_tail = 1, m_head = 1\<rparr>"
    by (simp add: cb_eval)
  with r0 have r1: "reachable 3 \<lparr>m_buffer = [0, 1, 0 :: int], m_size = 1, m_tail = 1, m_head = 1\<rparr>"
    by (rule reachable.pushed)
  have "push_back 3 2 \<lparr>m_buffer = [0, 1, 0 :: int], m_size = 1, m_tail = 1, m_head = 1\<rparr>
          = Inr \<lparr>m_buffer = [0, 1, 2], m_size = 2, m_tail = 2, m_head = 1\<rparr>"
    by (simp add: cb_eval)
  with r1 show ?thesis by (rule reachable.pushed)
qed

section \<open>push\_back\<close>

text \<open>
  C1. The claim: in every state, \<^verbatim>\<open>push_back\<close> increments the count and leaves the head
  alone when \<open>count < N\<close>, and keeps the count at \<open>N\<close> while advancing the head when
  \<open>count = N\<close>. The program tests \<^verbatim>\<open>size_ == N\<close> after it has incremented the counter.
  With \<open>N = 3\<close>, the state reached by pushing 1 and 2 has a count of 2; pushing 3 leaves
  the count at 2 and advances the head, so the element 1 is lost below capacity. From a
  state with a count of 3, which no sequence of calls reaches, the test fails and the
  count becomes 4.
\<close>

theorem push_back_evicts_below_capacity:
  "push_all 3 [1, 2] (constructed [0, 0, 0 :: int])
     = Inr \<lparr>m_buffer = [0, 1, 2], m_size = 2, m_tail = 2, m_head = 1\<rparr> \<and>
   push_back 3 3 \<lparr>m_buffer = [0, 1, 2 :: int], m_size = 2, m_tail = 2, m_head = 1\<rparr>
     = Inr \<lparr>m_buffer = [3, 1, 2], m_size = 2, m_tail = 0, m_head = 2\<rparr> \<and>
   push_back 3 4 \<lparr>m_buffer = [3, 1, 2 :: int], m_size = 3, m_tail = 0, m_head = 1\<rparr>
     = Inr \<lparr>m_buffer = [3, 4, 2], m_size = 4, m_tail = 1, m_head = 1\<rparr>"
  by (simp add: cb_eval)

text \<open>
  C2. The claim: after \<open>k \<le> N\<close> pushes into an empty buffer, \<^verbatim>\<open>size()\<close> is \<open>k\<close> and
  the traversal yields the \<open>k\<close> items in order. With \<open>N = 3\<close> and the pushes 1, 2, 3
  the program reports a size of 2 and the traversal yields 2, 3. In general the program
  keeps the last \<open>N - 1\<close> items of those pushed (\<open>pushes_keep_newest\<close>), so the claim
  holds of it for \<open>k < N\<close> only.
\<close>

theorem three_pushes_keep_two:
  "push_all 3 [1, 2, 3] (constructed [0, 0, 0 :: int])
     = Inr \<lparr>m_buffer = [3, 1, 2], m_size = 2, m_tail = 0, m_head = 2\<rparr> \<and>
   size_cb \<lparr>m_buffer = [3, 1, 2 :: int], m_size = 2, m_tail = 0, m_head = 2\<rparr> = 2 \<and>
   to_list 3 \<lparr>m_buffer = [3, 1, 2 :: int], m_size = 2, m_tail = 0, m_head = 2\<rparr> = Inr [2, 3]"
  by (simp add: cb_eval)

text \<open>
  C3. The claim: after more than \<open>N\<close> pushes \<^verbatim>\<open>size()\<close> is \<open>N\<close> and the traversal yields
  the last \<open>N\<close> items; for \<open>N = 3\<close>, pushing 1 to 5 leaves 3, 4, 5 and one
  \<^verbatim>\<open>pop_front\<close> then leaves 4, 5. The program keeps 4, 5 with a size of 2, and 5 alone
  with a size of 1 after the pop: it never holds more than \<open>N - 1\<close> items
  (\<open>pushes_keep_newest\<close>).
\<close>

theorem five_pushes_keep_two:
  "push_all 3 [1, 2, 3, 4, 5] (constructed [0, 0, 0 :: int])
     = Inr \<lparr>m_buffer = [3, 4, 5], m_size = 2, m_tail = 2, m_head = 1\<rparr> \<and>
   to_list 3 \<lparr>m_buffer = [3, 4, 5 :: int], m_size = 2, m_tail = 2, m_head = 1\<rparr> = Inr [4, 5] \<and>
   pop_front 3 \<lparr>m_buffer = [3, 4, 5 :: int], m_size = 2, m_tail = 2, m_head = 1\<rparr>
     = \<lparr>m_buffer = [3, 4, 5], m_size = 1, m_tail = 2, m_head = 2\<rparr> \<and>
   to_list 3 \<lparr>m_buffer = [3, 4, 5 :: int], m_size = 1, m_tail = 2, m_head = 2\<rparr> = Inr [5]"
  by (simp add: cb_eval)

section \<open>The size stays below the capacity\<close>

text \<open>
  C4. For every \<open>N \<ge> 1\<close> and every state a caller can reach from a constructed or
  cleared buffer by \<^verbatim>\<open>push_back\<close>, \<^verbatim>\<open>pop_front\<close> on a non-empty buffer, \<^verbatim>\<open>fill\<close> and
  \<^verbatim>\<open>clear\<close>: \<^verbatim>\<open>size()\<close> is at most \<open>N - 1\<close>, \<^verbatim>\<open>full()\<close> is false, and \<^verbatim>\<open>push_back\<close>
  returns. Moreover \<^verbatim>\<open>push_back\<close> from any state whose counter is \<open>N - 1\<close>, reachable or
  not, leaves the counter at \<open>N - 1\<close> whenever its write stays inside the storage.
\<close>

theorem size_below_capacity:
  assumes "N \<noteq> 0" and "reachable N c"
  shows "size_cb c \<le> N - 1 \<and> \<not> full N c \<and> (\<exists>c'. push_back N x c = Inr c') \<and>
         (\<forall>d d'. size_cb d = N - 1 \<and> push_back N x d = Inr d' \<longrightarrow> size_cb d' = N - 1)"
proof -
  from assms have inv: "ring_inv N c" by (simp add: reachable_ring_inv)
  then have lt: "m_size c < N" by (simp add: ring_inv_def)
  with assms(1) have "m_size c \<le> N - 1" by unat_arith
  moreover from lt have "m_size c \<noteq> N" by simp
  moreover from push_back_step [OF inv, of x] have "\<exists>c'. push_back N x c = Inr c'" by blast
  moreover have "\<forall>d d'. size_cb d = N - 1 \<and> push_back N x d = Inr d' \<longrightarrow> size_cb d' = N - 1"
  proof (intro allI impI)
    fix d d' :: "'a circular_buffer"
    assume "size_cb d = N - 1 \<and> push_back N x d = Inr d'"
    then show "size_cb d' = N - 1"
      using push_back_at_limit [of d N x d'] by (simp add: size_cb_def)
  qed
  ultimately show ?thesis
    by (simp add: size_cb_def full_def)
qed

theorem size_below_capacity_witness:
  "(3 :: size_t) \<noteq> 0 \<and>
   reachable 3 \<lparr>m_buffer = [0, 1, 2 :: int], m_size = 2, m_tail = 2, m_head = 1\<rparr> \<and>
   size_cb \<lparr>m_buffer = [0, 1, 2 :: int], m_size = 2, m_tail = 2, m_head = 1\<rparr> \<le> 3 - 1 \<and>
   \<not> full 3 \<lparr>m_buffer = [0, 1, 2 :: int], m_size = 2, m_tail = 2, m_head = 1\<rparr> \<and>
   (\<exists>c'. push_back 3 3 \<lparr>m_buffer = [0, 1, 2 :: int], m_size = 2, m_tail = 2, m_head = 1\<rparr> = Inr c' \<and>
         size_cb c' = 3 - 1)"
proof -
  let ?c = "\<lparr>m_buffer = [0, 1, 2 :: int], m_size = 2, m_tail = 2, m_head = 1\<rparr>"
  have n: "(3 :: size_t) \<noteq> 0" by simp
  from size_below_capacity [OF n reachable_example, of 3]
  have a: "size_cb ?c \<le> 3 - 1" and b: "\<not> full 3 ?c"
    and ex: "\<exists>c'. push_back 3 3 ?c = Inr c'"
    and lim: "\<forall>d d'. size_cb d = 3 - 1 \<and> push_back 3 (3 :: int) d = Inr d' \<longrightarrow> size_cb d' = 3 - 1"
    by blast+
  from ex obtain c' where pb: "push_back 3 3 ?c = Inr c'" ..
  have "size_cb ?c = 3 - 1" by (simp add: size_cb_def)
  with lim pb have "size_cb c' = 3 - 1" by blast
  with pb have "\<exists>c'. push_back 3 3 ?c = Inr c' \<and> size_cb c' = 3 - 1" by blast
  with n reachable_example a b show ?thesis by blast
qed

section \<open>Capacity zero\<close>

text \<open>
  C5. The claim: with \<open>N = 0\<close> the size is always 0, \<^verbatim>\<open>empty()\<close> and \<^verbatim>\<open>full()\<close> are
  both true, and \<^verbatim>\<open>push_back\<close> succeeds by writing into the one placeholder slot. In the
  program the first \<^verbatim>\<open>push_back\<close> on a constructed buffer sets both \<^verbatim>\<open>tail_\<close> and
  \<^verbatim>\<open>size_\<close> to 1; neither test resets them, since \<^verbatim>\<open>N\<close> is 0. From then on
  \<^verbatim>\<open>size()\<close> is 1 and \<^verbatim>\<open>empty()\<close> and \<^verbatim>\<open>full()\<close> are false, and the write goes to
  \<^verbatim>\<open>buffer_[1]\<close>, outside the array of one slot.
\<close>

theorem zero_capacity_push_back:
  "length [0 :: int] = storage_slots 0 \<and>
   incrementtail 0 (constructed [0 :: int])
     = \<lparr>m_buffer = [0], m_size = 1, m_tail = 1, m_head = 1\<rparr> \<and>
   size_cb (incrementtail 0 (constructed [0 :: int])) = 1 \<and>
   empty_cb (incrementtail 0 (constructed [0 :: int])) = False \<and>
   full 0 (incrementtail 0 (constructed [0 :: int])) = False \<and>
   push_back 0 7 (constructed [0 :: int]) = Inl OutsideStorage"
  by (simp add: cb_eval)

section \<open>Checked access\<close>

text \<open>
  C6. Whatever the state and its size, \<^verbatim>\<open>at(i)\<close> throws \<^verbatim>\<open>std::out_of_range\<close> exactly
  when \<open>i \<ge> N\<close>, and for \<open>i < N\<close> it returns the reference to the slot
  \<^verbatim>\<open>(_head + i) % N\<close>. The only assumption is that the storage is the array of the class.
\<close>

theorem at_out_of_range_iff:
  assumes "length (m_buffer c) = storage_slots N"
  shows "at N c i = (if i \<ge> N then Inl OutOfRange else Inr (unat ((m_head c + i) mod N))) \<and>
         (at N c i = Inl OutOfRange) = (i \<ge> N)"
proof (cases "i \<ge> N")
  case True
  then show ?thesis by (simp add: at_def)
next
  case False
  then have N0: "N \<noteq> 0" by auto
  with assms have len: "length (m_buffer c) = unat N" by (simp add: storage_slots_def)
  from False subscript_in_storage [OF N0 len, of i] show ?thesis
    by (simp add: at_def subscript_def)
qed

theorem at_out_of_range_iff_witness:
  "length (m_buffer \<lparr>m_buffer = [0, 10, 20 :: int], m_size = 2, m_tail = 2, m_head = 1\<rparr>) = storage_slots 3 \<and>
   at 3 \<lparr>m_buffer = [0, 10, 20 :: int], m_size = 2, m_tail = 2, m_head = 1\<rparr> 2 = Inr 0 \<and>
   at 3 \<lparr>m_buffer = [0, 10, 20 :: int], m_size = 2, m_tail = 2, m_head = 1\<rparr> 3 = Inl OutOfRange"
  using at_out_of_range_iff [of "\<lparr>m_buffer = [0, 10, 20 :: int], m_size = 2, m_tail = 2, m_head = 1\<rparr>" 3 2]
    at_out_of_range_iff [of "\<lparr>m_buffer = [0, 10, 20 :: int], m_size = 2, m_tail = 2, m_head = 1\<rparr>" 3 3]
  by (simp add: storage_slots_def)

section \<open>front and back\<close>

text \<open>
  C7. The claim: on a non-empty buffer, \<^verbatim>\<open>front()\<close> is the first logical element and
  \<^verbatim>\<open>back()\<close> the last one, for the mutable and the const overloads alike. The mutable
  overloads do so (\<open>front_back_mutable\<close>), and the const \<^verbatim>\<open>front()\<close> has the body of the
  mutable one. The const \<^verbatim>\<open>back()\<close> is written \<^verbatim>\<open>*end()-1\<close> where the mutable one has
  \<^verbatim>\<open>*(end()-1)\<close> (\<open>back_const_reads_end\<close>). With \<open>N = 3\<close>, after pushing 10 and 20 the
  mutable \<^verbatim>\<open>back()\<close> refers to slot 2, which holds 20; the const \<^verbatim>\<open>back()\<close> reads slot 0,
  which is outside the logical range and still holds its initial 0, and yields \<open>0 - 1\<close>.
\<close>

theorem const_back_reads_past_the_end:
  "push_all 3 [10, 20] (constructed [0, 0, 0 :: int])
     = Inr \<lparr>m_buffer = [0, 10, 20], m_size = 2, m_tail = 2, m_head = 1\<rparr> \<and>
   to_list 3 \<lparr>m_buffer = [0, 10, 20 :: int], m_size = 2, m_tail = 2, m_head = 1\<rparr> = Inr [10, 20] \<and>
   back_cb 3 \<lparr>m_buffer = [0, 10, 20 :: int], m_size = 2, m_tail = 2, m_head = 1\<rparr> = Inr 2 \<and>
   deref \<lparr>m_buffer = [0, 10, 20 :: int], m_size = 2, m_tail = 2, m_head = 1\<rparr> 2 = 20 \<and>
   back_const 3 \<lparr>m_buffer = [0, 10, 20 :: int], m_size = 2, m_tail = 2, m_head = 1\<rparr> = Inr (- 1)"
  by (simp add: cb_eval)

section \<open>Order of the surviving elements\<close>

text \<open>
  C8. Start from the state \<open>c0\<close> reached by pushing the items \<open>xs\<close> into a constructed
  buffer, and let it be non-empty. Then the caller that pops and pushes once for each
  item of \<open>ys\<close> never pops an empty buffer and never leaves the storage; the size stays
  what it was; and before and after, the traversal yields the most recently pushed items,
  as many as the size, in the order in which they were pushed: the last ones of \<open>xs\<close>
  before, the last ones of \<open>xs @ ys\<close> after, and the same without the oldest one after
  one more \<^verbatim>\<open>pop_front\<close>. The number of pushes that lead to \<open>c0\<close> is not restricted.
  The capacity is assumed below \<open>2^63\<close>, as it is for every array that exists; beyond it
  \<^verbatim>\<open>_head + i\<close> can wrap around and two positions can fall on one slot.
\<close>

theorem pop_push_keeps_fifo_order:
  assumes cap: "unat N < 2 ^ 63"
    and st: "length bs = storage_slots N"
    and start: "push_all N xs (constructed bs) = Inr c0"
    and ne: "\<not> empty_cb c0"
  shows "\<exists>c. pop_push_cycles N ys c0 = Inr c \<and> size_cb c = size_cb c0 \<and>
             to_list N c0 = Inr (newest (unat (size_cb c0)) xs) \<and>
             to_list N c = Inr (newest (unat (size_cb c0)) (xs @ ys)) \<and>
             to_list N (pop_front N c) = Inr (tl (newest (unat (size_cb c0)) (xs @ ys)))"
proof -
  have N0: "N \<noteq> 0"
  proof
    assume z: "N = 0"
    show False
    proof (cases xs)
      case Nil
      with start ne show False by (auto simp: constructed_def empty_cb_def size_cb_def)
    next
      case (Cons x xs')
      with start z st push_back_no_capacity [of bs x] show False by simp
    qed
  qed
  with st have inv0: "ring_inv N (constructed bs)" by (simp add: ring_inv_constructed)
  have empty0: "logical N (constructed bs) = []" by (simp add: logical_def constructed_def)
  from push_all_logical [OF inv0, of xs] start empty0
  have inv: "ring_inv N c0" and l0: "logical N c0 = newest (unat N - 1) xs" by auto
  from l0 have s: "unat (m_size c0) = length (newest (unat N - 1) xs)"
    using length_logical [of N c0] by simp
  then have l0': "logical N c0 = newest (unat (m_size c0)) xs"
    using l0 newest_length_idem [of "unat N - 1" xs] by simp
  from s have sle: "unat (m_size c0) \<le> length xs" by (simp add: newest_def)
  from ne have ne': "m_size c0 \<noteq> 0" by (simp add: empty_cb_def size_cb_def)
  from cycles_logical [OF inv ne', of ys] obtain c where
    run: "pop_push_cycles N ys c0 = Inr c" and invc: "ring_inv N c" and sz: "m_size c = m_size c0"
    and lc: "logical N c = drop (length ys) (logical N c0 @ ys)" by blast
  from lc l0' have "logical N c = drop (length ys) (newest (unat (m_size c0)) xs @ ys)"
    by (simp only:)
  also from sle have "\<dots> = newest (unat (m_size c0)) (xs @ ys)"
    by (rule newest_append_drop)
  finally have lc': "logical N c = newest (unat (m_size c0)) (xs @ ys)" .
  from ne' sz have nec: "m_size c \<noteq> 0" by simp
  from pop_front_step [OF invc nec] have invp: "ring_inv N (pop_front N c)" by simp
  have lp: "logical N (pop_front N c) = tl (newest (unat (m_size c0)) (xs @ ys))"
    using logical_pop [OF invc nec] lc' by simp
  from run sz l0' lc' lp to_list_logical [OF inv cap] to_list_logical [OF invc cap]
    to_list_logical [OF invp cap]
  show ?thesis by (simp add: size_cb_def)
qed

theorem pop_push_keeps_fifo_order_witness:
  "unat (3 :: size_t) < 2 ^ 63 \<and>
   length [0, 0, 0 :: int] = storage_slots 3 \<and>
   push_all 3 [1, 2, 3] (constructed [0, 0, 0 :: int])
     = Inr \<lparr>m_buffer = [3, 1, 2], m_size = 2, m_tail = 0, m_head = 2\<rparr> \<and>
   \<not> empty_cb \<lparr>m_buffer = [3, 1, 2 :: int], m_size = 2, m_tail = 0, m_head = 2\<rparr> \<and>
   (\<exists>c. pop_push_cycles 3 [4, 5] \<lparr>m_buffer = [3, 1, 2 :: int], m_size = 2, m_tail = 0, m_head = 2\<rparr> = Inr c \<and>
        to_list 3 c = Inr [4, 5])"
proof -
  let ?c0 = "\<lparr>m_buffer = [3, 1, 2 :: int], m_size = 2, m_tail = 0, m_head = 2\<rparr>"
  have cap: "unat (3 :: size_t) < 2 ^ 63" by simp
  have st: "length [0, 0, 0 :: int] = storage_slots 3" by (simp add: storage_slots_def)
  have start: "push_all 3 [1, 2, 3] (constructed [0, 0, 0 :: int]) = Inr ?c0"
    by (simp add: cb_eval)
  have ne: "\<not> empty_cb ?c0" by (simp add: empty_cb_def size_cb_def)
  from pop_push_keeps_fifo_order [OF cap st start ne, of "[4, 5]"] obtain c where
    run: "pop_push_cycles 3 [4, 5] ?c0 = Inr c"
    and l: "to_list 3 c = Inr (newest (unat (size_cb ?c0)) ([1, 2, 3] @ [4, 5]))" by blast
  have "newest (unat (size_cb ?c0)) ([1, 2, 3] @ [4, 5 :: int]) = [4, 5]"
    by (simp add: newest_def size_cb_def)
  with run l have "\<exists>c. pop_push_cycles 3 [4, 5] ?c0 = Inr c \<and> to_list 3 c = Inr [4, 5]"
    by simp
  with cap st start ne show ?thesis by blast
qed

section \<open>Queries after clear\<close>

text \<open>
  C9. Whatever the state, after \<^verbatim>\<open>clear()\<close> the reads report \<^verbatim>\<open>size() == 0\<close>,
  \<^verbatim>\<open>empty() == true\<close> and \<^verbatim>\<open>full() == (N == 0)\<close>. The three queries are functions of
  the state alone, so they report the same until the state is changed.
\<close>

theorem clear_then_queries:
  "size_cb (clear c) = 0 \<and> empty_cb (clear c) = True \<and> full N (clear c) = (N = 0)"
  by (auto simp: clear_def size_cb_def empty_cb_def full_def)

section \<open>Unchecked access\<close>

text \<open>
  C10, as stated: for every state and every index, \<^verbatim>\<open>operator[](i)\<close> returns a reference
  to the slot \<^verbatim>\<open>(_head + i) % N\<close>. With \<open>N = 0\<close> there is no such slot: the remainder is
  taken modulo zero.
\<close>

theorem subscript_zero_capacity: "subscript 0 (constructed [0 :: int]) 0 = Inl ModuloByZero"
  by (simp add: subscript_def position_inbuffer_def)

text \<open>
  C10, amended: for every \<open>N \<ge> 1\<close>, every state over the array of the class and every
  index \<open>i\<close>, whatever the size, \<^verbatim>\<open>operator[](i)\<close> returns a reference to the slot
  \<^verbatim>\<open>(_head + i) % N\<close>, which lies inside the storage; and the traversal yields, at each
  position \<open>k\<close> below \<^verbatim>\<open>size()\<close>, what the slot \<^verbatim>\<open>(_head + k) % N\<close> holds.
\<close>

theorem subscript_slot:
  assumes "N \<noteq> 0" and "length (m_buffer c) = storage_slots N"
  shows "subscript N c i = Inr (unat ((m_head c + i) mod N)) \<and>
         unat ((m_head c + i) mod N) < storage_slots N \<and>
         (\<exists>xs. to_list N c = Inr xs \<and> length xs = unat (size_cb c) \<and>
           (\<forall>k < unat (size_cb c). xs ! k = deref c (unat ((m_head c + of_nat k) mod N))))"
proof -
  from assms have len: "length (m_buffer c) = unat N" by (simp add: storage_slots_def)
  from assms(1) have "0 < unat N" by (simp add: unat_gt_0)
  then have "unat ((m_head c + i) mod N) < unat N" by (simp add: unat_mod_distrib)
  with assms(1) subscript_in_storage [OF assms(1) len, of i] to_list_word [OF assms(1) len]
  show ?thesis by (simp add: storage_slots_def size_cb_def deref_def)
qed

theorem subscript_slot_witness:
  "(3 :: size_t) \<noteq> 0 \<and>
   length (m_buffer \<lparr>m_buffer = [0, 10, 20 :: int], m_size = 2, m_tail = 2, m_head = 1\<rparr>) = storage_slots 3 \<and>
   subscript 3 \<lparr>m_buffer = [0, 10, 20 :: int], m_size = 2, m_tail = 2, m_head = 1\<rparr> 7 = Inr 2"
  using subscript_slot [of 3 "\<lparr>m_buffer = [0, 10, 20 :: int], m_size = 2, m_tail = 2, m_head = 1\<rparr>" 7]
  by (simp add: storage_slots_def)

end
